theory Spec2Isabelle
  imports Main
begin

section \<open>Strings and numbers of the source\<close>

text \<open>
  The program is JavaScript. Its strings are sequences of UTF-16 code units; a
  \<^typ>\<open>string\<close> here is a list of code units below \<open>0x100\<close>, one \<^typ>\<open>char\<close> each. Its
  numbers are doubles. Every number the program computes with is either one of the table
  constants, the result of \<open>parseInt\<close>, or a loop variable that stays below the field
  maximum plus one step; numbers are modelled as \<^typ>\<open>int\<close>. A double differs from the
  integer only above \<open>2^53\<close>, where both are larger than every field maximum: as a range
  bound both are rejected, and as a step both end the loop after its first element.
  An exception of the source is a value \<open>Inl e\<close>, the arguments of its message kept in
  \<open>e\<close>. The functions \<open>main\<close>, \<open>formatOutput\<close> and \<open>padLeftRight\<close> read the command
  line and print; the properties below are about \<open>parseField\<close> and what it calls.
\<close>

definition isWhiteSpace :: "char \<Rightarrow> bool" where
  \<comment> \<open>WhiteSpace and LineTerminator of ECMAScript, below \<open>0x100\<close>: TAB, LF, VT, FF, CR, SP, NBSP.\<close>
  "isWhiteSpace c = (c \<in> set [CHR 0x09, CHR 0x0A, CHR 0x0B, CHR 0x0C, CHR 0x0D, CHR 0x20, CHR 0xA0])"

definition isDigit :: "char \<Rightarrow> bool" where
  "isDigit c = (48 \<le> (of_char c :: nat) \<and> (of_char c :: nat) \<le> 57)"

definition digitVal :: "char \<Rightarrow> int" where
  "digitVal c = int (of_char c) - 48"

definition isAlpha :: "char \<Rightarrow> bool" where
  \<comment> \<open>the character class \<open>[a-zA-Z]\<close>\<close>
  "isAlpha c = ((65 \<le> (of_char c :: nat) \<and> (of_char c :: nat) \<le> 90) \<or>
                (97 \<le> (of_char c :: nat) \<and> (of_char c :: nat) \<le> 122))"

definition toLowerCase :: "char \<Rightarrow> char" where
  "toLowerCase c =
     (if 65 \<le> (of_char c :: nat) \<and> (of_char c :: nat) \<le> 90
      then char_of ((of_char c :: nat) + 32) else c)"

definition trim :: "string \<Rightarrow> string" where
  \<comment> \<open>\<open>String.prototype.trim\<close>\<close>
  "trim s = rev (dropWhile isWhiteSpace (rev (dropWhile isWhiteSpace s)))"

fun splitAcc :: "char \<Rightarrow> string \<Rightarrow> string \<Rightarrow> string list" where
  "splitAcc sep acc [] = [rev acc]"
| "splitAcc sep acc (x # xs) =
     (if x = sep then rev acc # splitAcc sep [] xs else splitAcc sep (x # acc) xs)"

definition split :: "string \<Rightarrow> char \<Rightarrow> string list" where
  \<comment> \<open>\<open>s.split(sep)\<close> for a separator of one character: never the empty list\<close>
  "split s sep = splitAcc sep [] s"

definition digitsVal :: "string \<Rightarrow> int" where
  "digitsVal ds = foldl (\<lambda>acc c. 10 * acc + digitVal c) 0 ds"

definition parseInt :: "string \<Rightarrow> int option" where
  \<comment> \<open>\<open>parseInt(s, 10)\<close>: skip leading white space, read one optional sign, then the
      longest run of decimal digits; \<open>None\<close> is \<open>NaN\<close> (no digit there)\<close>
  "parseInt s =
     (let s1 = dropWhile isWhiteSpace s;
          sign = (case s1 of c # _ \<Rightarrow> if c = CHR ''-'' then - 1 else 1 | [] \<Rightarrow> (1::int));
          s2 = (case s1 of c # r \<Rightarrow> if c = CHR ''-'' \<or> c = CHR ''+'' then r else s1 | [] \<Rightarrow> s1);
          z = takeWhile isDigit s2
      in if z = [] then None else Some (sign * digitsVal z))"

function digits :: "nat \<Rightarrow> string" where
  "digits n = (if n < 10 then [char_of (48 + n)] else digits (n div 10) @ [char_of (48 + n mod 10)])"
  by pat_completeness auto
termination
  by (relation "measure id") auto

declare digits.simps [simp del]

definition String :: "int \<Rightarrow> string" where
  \<comment> \<open>\<open>String(n)\<close> of an integer\<close>
  "String n = (if n < 0 then CHR ''-'' # digits (nat (- n)) else digits (nat n))"

section \<open>The tables\<close>

record field_def =
  name_f :: string
  min_f :: int
  max_f :: int

definition FIELD_DEFS :: "field_def list" where
  "FIELD_DEFS =
     [\<lparr>name_f = ''minute'', min_f = 0, max_f = 59\<rparr>,
      \<lparr>name_f = ''hour'', min_f = 0, max_f = 23\<rparr>,
      \<lparr>name_f = ''day of month'', min_f = 1, max_f = 31\<rparr>,
      \<lparr>name_f = ''month'', min_f = 1, max_f = 12\<rparr>,
      \<lparr>name_f = ''day of week'', min_f = 0, max_f = 6\<rparr>]"

definition MONTH_NAMES :: "(string \<times> int) list" where
  "MONTH_NAMES =
     [(''jan'', 1), (''feb'', 2), (''mar'', 3), (''apr'', 4), (''may'', 5), (''jun'', 6),
      (''jul'', 7), (''aug'', 8), (''sep'', 9), (''oct'', 10), (''nov'', 11), (''dec'', 12)]"

definition DOW_NAMES :: "(string \<times> int) list" where
  "DOW_NAMES =
     [(''sun'', 0), (''mon'', 1), (''tue'', 2), (''wed'', 3), (''thu'', 4), (''fri'', 5),
      (''sat'', 6)]"

section \<open>The functions\<close>

datatype error =
    MissingField
  | InvalidStep string
  | InvalidRange string
  | InvalidValue string string
  | OutOfBounds string int int
  | TypeError

fun insertNew :: "int list \<Rightarrow> int \<Rightarrow> int list" where
  "insertNew s x = (if x \<in> set s then s else s @ [x])"

definition uniqueSorted :: "int list \<Rightarrow> int list" where
  \<comment> \<open>\<open>new Set(arr)\<close> keeps the first occurrence of each value, in insertion order;
      the comparator \<open>a - b\<close> sorts ascending\<close>
  "uniqueSorted arr = sort (foldl insertNew [] arr)"

fun replaceAll3 :: "(string \<times> int) list \<Rightarrow> string \<Rightarrow> string" where
  \<comment> \<open>\<open>token.replace(/[a-zA-Z]{3}/g, f)\<close>: the matches are found left to right and do not
      overlap; after a match the scan goes on behind it, otherwise one character further\<close>
  "replaceAll3 nameMap (a # b # c # rest) =
     (if isAlpha a \<and> isAlpha b \<and> isAlpha c
      then (case map_of nameMap (map toLowerCase [a, b, c]) of
              Some v \<Rightarrow> String v
            | None \<Rightarrow> [a, b, c]) @ replaceAll3 nameMap rest
      else a # replaceAll3 nameMap (b # c # rest))"
| "replaceAll3 nameMap s = s"

definition replaceNames :: "string \<Rightarrow> nat \<Rightarrow> string" where
  "replaceNames token fieldIndex =
     (if fieldIndex = 3 then replaceAll3 MONTH_NAMES token
      else if fieldIndex = 4 then replaceAll3 DOW_NAMES token
      else token)"

function values_loop :: "int \<Rightarrow> int \<Rightarrow> int \<Rightarrow> int list" where
  \<comment> \<open>\<open>for (let v = rangeStart; v <= rangeEnd; v += step) out.push(v)\<close>; the source
      reaches the loop with \<open>step > 0\<close> only, and the test on \<open>step\<close> makes the function total\<close>
  "values_loop v rangeEnd step =
     (if v \<le> rangeEnd \<and> 0 < step then v # values_loop (v + step) rangeEnd step else [])"
  by pat_completeness auto
termination
  by (relation "measure (\<lambda>(v, rangeEnd, step). nat (rangeEnd + 1 - v))") auto

declare values_loop.simps [simp del]

definition parseStep :: "string option \<Rightarrow> string \<Rightarrow> error + int" where
  \<comment> \<open>lines 52 and 53: \<open>stepPart\<close> is \<open>None\<close> when the token has no slash; the conditional
      tests the truthiness of \<open>stepPart\<close>, and the empty string is falsy\<close>
  "parseStep stepPart token =
     (case (case stepPart of
              None \<Rightarrow> Some 1
            | Some sp \<Rightarrow> if sp = [] then Some 1 else parseInt sp) of
        None \<Rightarrow> Inl (InvalidStep token)
      | Some step \<Rightarrow> if step \<le> 0 then Inl (InvalidStep token) else Inr step)"

definition parseRange :: "string \<Rightarrow> string \<Rightarrow> int \<Rightarrow> int \<Rightarrow> error + int \<times> int" where
  \<comment> \<open>lines 55 to 70\<close>
  "parseRange rangePart token mn mx =
     (if rangePart = ''*'' then Inr (mn, mx)
      else if CHR ''-'' \<in> set rangePart then
        (case map parseInt (split rangePart (CHR ''-'')) of
           Some a # Some b # _ \<Rightarrow> Inr (a, b)
         | _ \<Rightarrow> Inl (InvalidRange token))
      else
        (case parseInt rangePart of
           None \<Rightarrow> Inl (InvalidValue rangePart token)
         | Some val \<Rightarrow> Inr (val, val)))"

definition foldSeven :: "nat \<Rightarrow> int \<times> int \<Rightarrow> int \<times> int" where
  \<comment> \<open>lines 73 to 76\<close>
  "foldSeven fieldIndex r =
     (if fieldIndex = 4
      then ((if fst r = 7 then 0 else fst r), (if snd r = 7 then 0 else snd r))
      else r)"

definition parseToken :: "string \<Rightarrow> int \<Rightarrow> int \<Rightarrow> nat \<Rightarrow> error + int list" where
  "parseToken token0 mn mx fieldIndex =
     (let token = replaceNames (trim token0) fieldIndex in
      case split token (CHR ''/'') of
        [] \<Rightarrow> Inl TypeError
      | rangePart # rest \<Rightarrow>
          (case parseStep (case rest of [] \<Rightarrow> None | stepPart # _ \<Rightarrow> Some stepPart) token of
             Inl e \<Rightarrow> Inl e
           | Inr step \<Rightarrow>
               (case parseRange rangePart token mn mx of
                  Inl e \<Rightarrow> Inl e
                | Inr r \<Rightarrow>
                    (case foldSeven fieldIndex r of
                       (rangeStart, rangeEnd) \<Rightarrow>
                         if rangeStart < mn \<or> rangeStart > mx \<or> rangeEnd < mn \<or> rangeEnd > mx
                         then Inl (OutOfBounds token mn mx)
                         else Inr (values_loop rangeStart rangeEnd step)))))"

fun parseTokens :: "string list \<Rightarrow> int \<Rightarrow> int \<Rightarrow> nat \<Rightarrow> int list \<Rightarrow> error + int list" where
  \<comment> \<open>the loop of lines 97 to 99, \<open>values\<close> the accumulator\<close>
  "parseTokens [] mn mx defIndex values = Inr values"
| "parseTokens (p # ps) mn mx defIndex values =
     (case parseToken p mn mx defIndex of
        Inl e \<Rightarrow> Inl e
      | Inr vs \<Rightarrow> parseTokens ps mn mx defIndex (values @ vs))"

definition parseField :: "string \<Rightarrow> nat \<Rightarrow> error + int list" where
  \<comment> \<open>\<open>FIELD_DEFS[defIndex]\<close> is \<open>undefined\<close> beyond the table, and \<open>def.min\<close> then raises a
      TypeError at the first token\<close>
  "parseField fieldStr defIndex =
     (if fieldStr = [] then Inl MissingField
      else
        let parts = filter (\<lambda>p. length p > 0) (map trim (split fieldStr (CHR '','')))
        in if parts = [] then Inr (uniqueSorted [])
           else if defIndex < length FIELD_DEFS
           then (case parseTokens parts (min_f (FIELD_DEFS ! defIndex))
                        (max_f (FIELD_DEFS ! defIndex)) defIndex [] of
                   Inl e \<Rightarrow> Inl e
                 | Inr values \<Rightarrow> Inr (uniqueSorted values))
           else Inl TypeError)"

definition parts_of :: "string \<Rightarrow> string list" where
  \<comment> \<open>the value of \<open>parts\<close> at line 95, named for the proofs\<close>
  "parts_of f = filter (\<lambda>p. length p > 0) (map trim (split f (CHR '','')))"

section \<open>Auxiliary facts\<close>

subsection \<open>Splitting and trimming\<close>

lemma splitAcc_no_sep: "sep \<notin> set s \<Longrightarrow> splitAcc sep acc s = [rev acc @ s]"
  by (induction s arbitrary: acc) auto

lemma split_no_sep: "sep \<notin> set s \<Longrightarrow> split s sep = [s]"
  by (simp add: split_def splitAcc_no_sep)

lemma trim_all_ws: "\<forall>c\<in>set s. isWhiteSpace c \<Longrightarrow> trim s = []"
proof -
  assume "\<forall>c\<in>set s. isWhiteSpace c"
  then have h: "dropWhile isWhiteSpace s = []" by simp
  show ?thesis unfolding trim_def h by simp
qed

lemma comma_not_ws: "\<not> isWhiteSpace (CHR '','')"
  by (simp add: isWhiteSpace_def)

subsection \<open>Deduplication and sorting\<close>

lemma uniqueSorted_Nil: "uniqueSorted [] = []"
  by (simp add: uniqueSorted_def)

lemma set_foldl_insertNew: "set (foldl insertNew s xs) = set s \<union> set xs"
  by (induction xs arbitrary: s) auto

lemma distinct_foldl_insertNew: "distinct s \<Longrightarrow> distinct (foldl insertNew s xs)"
  by (induction xs arbitrary: s) auto

lemma set_uniqueSorted: "set (uniqueSorted xs) = set xs"
  by (simp add: uniqueSorted_def set_foldl_insertNew)

lemma distinct_uniqueSorted: "distinct (uniqueSorted xs)"
  by (simp add: uniqueSorted_def distinct_foldl_insertNew)

lemma sorted_uniqueSorted: "sorted (uniqueSorted xs)"
  by (simp add: uniqueSorted_def)

lemma strict_uniqueSorted: "sorted_wrt (<) (uniqueSorted xs)"
  using sorted_uniqueSorted distinct_uniqueSorted by (simp add: strict_sorted_iff)

lemma uniqueSorted_set_eq: "set xs = set ys \<Longrightarrow> uniqueSorted xs = uniqueSorted ys"
proof -
  assume "set xs = set ys"
  then have "set (uniqueSorted xs) = set (uniqueSorted ys)" by (simp add: set_uniqueSorted)
  then show ?thesis
    using sorted_distinct_set_unique [OF sorted_uniqueSorted distinct_uniqueSorted
        sorted_uniqueSorted distinct_uniqueSorted] by blast
qed

lemma foldl_insertNew_distinct: "distinct (s @ xs) \<Longrightarrow> foldl insertNew s xs = s @ xs"
  by (induction xs arbitrary: s) auto

lemma uniqueSorted_strict: "sorted_wrt (<) xs \<Longrightarrow> uniqueSorted xs = xs"
proof -
  assume a: "sorted_wrt (<) xs"
  then have "distinct xs" and "sorted xs" by (simp_all add: strict_sorted_iff)
  then show ?thesis
    using foldl_insertNew_distinct [of "[]" xs] by (simp add: uniqueSorted_def sorted_sort_id)
qed

subsection \<open>The loop over a range\<close>

lemma values_loop_stop: "\<not> (v \<le> e \<and> 0 < step) \<Longrightarrow> values_loop v e step = []"
  by (subst values_loop.simps) auto

lemma values_loop_step:
  "v \<le> e \<Longrightarrow> 0 < step \<Longrightarrow> values_loop v e step = v # values_loop (v + step) e step"
  by (subst values_loop.simps) auto

lemma values_loop_bounds:
  "x \<in> set (values_loop v e step) \<Longrightarrow> v \<le> x \<and> x \<le> e"
proof (induction v e step rule: values_loop.induct)
  case (1 v e step)
  show ?case
  proof (cases "v \<le> e \<and> 0 < step")
    case True
    with "1.prems" have "x = v \<or> x \<in> set (values_loop (v + step) e step)"
      by (simp add: values_loop_step)
    then show ?thesis
    proof
      assume "x = v" with True show ?thesis by simp
    next
      assume "x \<in> set (values_loop (v + step) e step)"
      with "1.IH" True have "v + step \<le> x \<and> x \<le> e" by simp
      with True show ?thesis by simp
    qed
  next
    case False
    with "1.prems" show ?thesis by (simp add: values_loop_stop)
  qed
qed

lemma values_loop_strict: "sorted_wrt (<) (values_loop v e step)"
proof (induction v e step rule: values_loop.induct)
  case (1 v e step)
  show ?case
  proof (cases "v \<le> e \<and> 0 < step")
    case True
    have "\<forall>x\<in>set (values_loop (v + step) e step). v < x"
      using values_loop_bounds [of _ "v + step" e step] True by force
    with "1.IH" True show ?thesis by (simp add: values_loop_step)
  next
    case False
    then show ?thesis by (simp add: values_loop_stop)
  qed
qed

subsection \<open>Tokens and fields that expand\<close>

lemma parseToken_Inr_elim:
  assumes "parseToken t mn mx i = Inr ws"
  obtains rangePart rest step r where
    "split (replaceNames (trim t) i) (CHR ''/'') = rangePart # rest"
    "parseStep (case rest of [] \<Rightarrow> None | stepPart # _ \<Rightarrow> Some stepPart) (replaceNames (trim t) i) = Inr step"
    "parseRange rangePart (replaceNames (trim t) i) mn mx = Inr r"
    "mn \<le> fst (foldSeven i r)" "fst (foldSeven i r) \<le> mx"
    "mn \<le> snd (foldSeven i r)" "snd (foldSeven i r) \<le> mx"
    "ws = values_loop (fst (foldSeven i r)) (snd (foldSeven i r)) step"
proof -
  let ?tok = "replaceNames (trim t) i"
  from assms obtain rangePart rest where sp: "split ?tok (CHR ''/'') = rangePart # rest"
    by (cases "split ?tok (CHR ''/'')") (simp_all add: parseToken_def)
  let ?sp = "case rest of [] \<Rightarrow> None | stepPart # _ \<Rightarrow> Some stepPart"
  from assms sp obtain step where st: "parseStep ?sp ?tok = Inr step"
    by (cases "parseStep ?sp ?tok") (simp_all add: parseToken_def)
  from assms sp st obtain r where r: "parseRange rangePart ?tok mn mx = Inr r"
    by (cases "parseRange rangePart ?tok mn mx") (simp_all add: parseToken_def)
  obtain s e where se: "foldSeven i r = (s, e)" by (cases "foldSeven i r")
  from assms sp st r se
  have "\<not> (s < mn \<or> s > mx \<or> e < mn \<or> e > mx)" and "ws = values_loop s e step"
    by (simp_all add: parseToken_def split: if_splits)
  with that [OF sp st r] se show thesis by simp
qed

lemma parseToken_bounds:
  "parseToken t mn mx i = Inr ws \<Longrightarrow> x \<in> set ws \<Longrightarrow> mn \<le> x \<and> x \<le> mx"
  by (erule parseToken_Inr_elim) (use values_loop_bounds in fastforce)

lemma parseTokens_Inr:
  "parseTokens ps mn mx i acc = Inr vs \<Longrightarrow>
     (\<forall>p\<in>set ps. \<exists>ws. parseToken p mn mx i = Inr ws) \<and>
     set vs = set acc \<union> (\<Union>p\<in>set ps. \<Union>ws\<in>{ws. parseToken p mn mx i = Inr ws}. set ws)"
proof (induction ps arbitrary: acc)
  case Nil
  then show ?case by simp
next
  case (Cons p ps)
  from Cons.prems obtain ws where ws: "parseToken p mn mx i = Inr ws"
    and rest: "parseTokens ps mn mx i (acc @ ws) = Inr vs"
    by (auto split: sum.splits)
  from Cons.IH [OF rest] ws show ?case by auto
qed

lemma set_parts_of: "set (parts_of f) = {p \<in> trim ` set (split f (CHR '','')). p \<noteq> []}"
  by (auto simp: parts_of_def)

lemma parseField_alt:
  "parseField f i =
     (if f = [] then Inl MissingField
      else if parts_of f = [] then Inr []
      else if i < length FIELD_DEFS
      then (case parseTokens (parts_of f) (min_f (FIELD_DEFS ! i)) (max_f (FIELD_DEFS ! i)) i [] of
              Inl e \<Rightarrow> Inl e
            | Inr values \<Rightarrow> Inr (uniqueSorted values))
      else Inl TypeError)"
  unfolding parseField_def parts_of_def Let_def uniqueSorted_Nil ..

lemma parseField_Inr_cases:
  assumes "parseField f i = Inr r"
  shows "(parts_of f = [] \<and> r = []) \<or>
         (parts_of f \<noteq> [] \<and> i < length FIELD_DEFS \<and>
           (\<exists>vs. parseTokens (parts_of f) (min_f (FIELD_DEFS ! i))
              (max_f (FIELD_DEFS ! i)) i [] = Inr vs \<and> r = uniqueSorted vs))"
proof (cases "parts_of f = []")
  case True
  with assms show ?thesis
    by (simp add: parseField_alt split: if_splits)
next
  case False
  with assms show ?thesis
    by (cases "parseTokens (parts_of f) (min_f (FIELD_DEFS ! i)) (max_f (FIELD_DEFS ! i)) i []")
       (simp_all add: parseField_alt split: if_splits)
qed

lemma set_parseTokens:
  assumes "parseTokens ps mn mx i [] = Inr vs"
  shows "set vs = (\<Union>p\<in>set ps. \<Union>ws\<in>{ws. parseToken p mn mx i = Inr ws}. set ws)"
  using parseTokens_Inr [OF assms] by simp

subsection \<open>Decimal digits\<close>

lemma isDigit_char_of: "(d::nat) < 10 \<Longrightarrow> isDigit (char_of (48 + d))"
  by (simp add: isDigit_def)

lemma digitVal_char_of: "(d::nat) < 10 \<Longrightarrow> digitVal (char_of (48 + d)) = int d"
  by (simp add: digitVal_def)

lemma digits_isDigit: "list_all isDigit (digits n)"
proof (induction n rule: digits.induct)
  case (1 n)
  show ?case
  proof (cases "n < 10")
    case True
    then show ?thesis by (subst digits.simps) (simp add: isDigit_char_of)
  next
    case False
    have "n mod 10 < 10" by simp
    then have "isDigit (char_of (48 + n mod 10))" by (rule isDigit_char_of)
    with False "1.IH" show ?thesis by (subst digits.simps) simp
  qed
qed

lemma digits_not_Nil: "digits n \<noteq> []"
  by (subst digits.simps) simp

lemma digitsVal_snoc: "digitsVal (ds @ [c]) = 10 * digitsVal ds + digitVal c"
  by (simp add: digitsVal_def)

lemma digitsVal_digits: "digitsVal (digits n) = int n"
proof (induction n rule: digits.induct)
  case (1 n)
  show ?case
  proof (cases "n < 10")
    case True
    then show ?thesis by (subst digits.simps) (simp add: digitsVal_def digitVal_char_of)
  next
    case False
    have "n mod 10 < 10" by simp
    then have "digitVal (char_of (48 + n mod 10)) = int (n mod 10)" by (rule digitVal_char_of)
    moreover have "10 * int (n div 10) + int (n mod 10) = int n" by presburger
    ultimately show ?thesis using False "1.IH"
      by (subst digits.simps) (simp add: digitsVal_snoc)
  qed
qed

lemma isDigit_not_ws: "isDigit c \<Longrightarrow> \<not> isWhiteSpace c"
  by (auto simp: isDigit_def isWhiteSpace_def)

lemma isDigit_not_sign: "isDigit c \<Longrightarrow> c \<noteq> CHR ''-'' \<and> c \<noteq> CHR ''+''"
  by (auto simp: isDigit_def)

lemma isDigit_not_alpha: "isDigit c \<Longrightarrow> \<not> isAlpha c"
  by (auto simp: isDigit_def isAlpha_def)

lemma isDigit_not_sep: "isDigit c \<Longrightarrow> c \<noteq> CHR '','' \<and> c \<noteq> CHR ''/'' \<and> c \<noteq> CHR ''*''"
  by (auto simp: isDigit_def)

lemma takeWhile_digits_append:
  "list_all isDigit ds \<Longrightarrow> rest = [] \<or> \<not> isDigit (hd rest) \<Longrightarrow>
   takeWhile isDigit (ds @ rest) = ds"
  by (cases rest) (auto simp: list_all_iff takeWhile_append)

lemma parseInt_digits_append:
  assumes "ds \<noteq> []" "list_all isDigit ds" "rest = [] \<or> \<not> isDigit (hd rest)"
  shows "parseInt (ds @ rest) = Some (digitsVal ds)"
proof -
  from assms obtain d ds' where ds: "ds = d # ds'" and d: "isDigit d"
    by (cases ds) auto
  have s1: "dropWhile isWhiteSpace (ds @ rest) = ds @ rest"
    using ds d isDigit_not_ws by simp
  have tw: "takeWhile isDigit (ds @ rest) = ds"
    using assms by (simp add: takeWhile_digits_append)
  show ?thesis
    unfolding parseInt_def Let_def s1
    using ds isDigit_not_sign [OF d] tw assms(1) by simp
qed

subsection \<open>Tokens without white space and letters\<close>

lemma splitAcc_sep:
  "sep \<notin> set a \<Longrightarrow> splitAcc sep acc (a @ sep # b) = (rev acc @ a) # splitAcc sep [] b"
  by (induction a arbitrary: acc) auto

lemma split_sep: "sep \<notin> set a \<Longrightarrow> split (a @ sep # b) sep = a # split b sep"
  by (simp add: split_def splitAcc_sep)

lemma trim_no_ws: "\<forall>c\<in>set s. \<not> isWhiteSpace c \<Longrightarrow> trim s = s"
proof -
  assume a: "\<forall>c\<in>set s. \<not> isWhiteSpace c"
  have d: "dropWhile isWhiteSpace t = t" if "\<forall>c\<in>set t. \<not> isWhiteSpace c" for t
    using that by (cases t) auto
  have "dropWhile isWhiteSpace s = s" using a by (rule d)
  moreover have "dropWhile isWhiteSpace (rev s) = rev s" using a by (intro d) simp
  ultimately show ?thesis by (simp add: trim_def)
qed

lemma replaceAll3_no_alpha: "\<forall>c\<in>set s. \<not> isAlpha c \<Longrightarrow> replaceAll3 T s = s"
  by (induction T s rule: replaceAll3.induct) auto

lemma replaceNames_no_alpha: "\<forall>c\<in>set s. \<not> isAlpha c \<Longrightarrow> replaceNames s i = s"
  by (simp add: replaceNames_def replaceAll3_no_alpha)

lemma values_loop_set:
  "0 < step \<Longrightarrow> set (values_loop v e step) = {x. \<exists>k::nat. x = v + int k * step} \<inter> {v..e}"
proof (induction v e step rule: values_loop.induct)
  case (1 v e step)
  show ?case
  proof (cases "v \<le> e")
    case False
    then show ?thesis by (simp add: values_loop_stop)
  next
    case True
    with "1.prems" "1.IH"
    have IH: "set (values_loop (v + step) e step) =
        {x. \<exists>k::nat. x = v + step + int k * step} \<inter> {v + step..e}" by simp
    have "{x. \<exists>k::nat. x = v + int k * step} \<inter> {v..e} =
        insert v ({x. \<exists>k::nat. x = v + step + int k * step} \<inter> {v + step..e})"
      (is "?L = insert v ?R")
    proof (intro set_eqI iffI)
      fix x assume "x \<in> ?L"
      then obtain k :: nat where k: "x = v + int k * step" and xe: "x \<le> e" by auto
      show "x \<in> insert v ?R"
      proof (cases k)
        case 0
        with k show ?thesis by simp
      next
        case (Suc k')
        with k have "x = v + step + int k' * step" by (simp add: algebra_simps)
        moreover have "0 \<le> int k' * step" using "1.prems" by simp
        ultimately show ?thesis using xe by auto
      qed
    next
      fix x assume "x \<in> insert v ?R"
      then consider "x = v" | "x \<in> ?R" by auto
      then show "x \<in> ?L"
      proof cases
        case 1
        have "\<exists>k::nat. v = v + int k * step" by (rule exI [of _ 0]) simp
        with 1 True show ?thesis by simp
      next
        case 2
        then obtain k :: nat where k: "x = v + step + int k * step"
          and b: "v + step \<le> x" "x \<le> e" by auto
        from k have "x = v + int (Suc k) * step" by (simp add: algebra_simps)
        moreover have "v \<le> x" using b "1.prems" by simp
        ultimately have "(\<exists>k::nat. x = v + int k * step) \<and> v \<le> x \<and> x \<le> e"
          using b by blast
        then show ?thesis by simp
      qed
    qed
    with IH True "1.prems" show ?thesis by (simp add: values_loop_step)
  qed
qed

lemma values_loop_reversed: "e < v \<Longrightarrow> values_loop v e step = []"
  by (simp add: values_loop_stop)

lemma digits_set: "c \<in> set (digits n) \<Longrightarrow> isDigit c"
  using digits_isDigit [of n] by (simp add: list_all_iff)

lemma parseInt_digits: "parseInt (digits n) = Some (int n)"
  using parseInt_digits_append [of "digits n" "[]"]
  by (simp add: digits_not_Nil digits_isDigit digitsVal_digits)

lemma parseField_single:
  assumes "tok \<noteq> []" "\<forall>c\<in>set tok. \<not> isWhiteSpace c" "CHR '','' \<notin> set tok"
  shows "parseField tok i =
     (if i < length FIELD_DEFS
      then (case parseToken tok (min_f (FIELD_DEFS ! i)) (max_f (FIELD_DEFS ! i)) i of
              Inl e \<Rightarrow> Inl e
            | Inr vs \<Rightarrow> Inr (uniqueSorted vs))
      else Inl TypeError)"
proof -
  have "split tok (CHR '','') = [tok]" using assms(3) by (rule split_no_sep)
  moreover have "trim tok = tok" using assms(2) by (rule trim_no_ws)
  ultimately have "parts_of tok = [tok]" using assms(1) by (simp add: parts_of_def)
  then show ?thesis using assms(1)
    by (simp add: parseField_alt split: sum.splits)
qed

lemma parseToken_plain:
  assumes "\<forall>c\<in>set tok. \<not> isWhiteSpace c \<and> \<not> isAlpha c"
    and "split tok (CHR ''/'') = rangePart # rest"
  shows "parseToken tok mn mx i =
     (case parseStep (case rest of [] \<Rightarrow> None | stepPart # _ \<Rightarrow> Some stepPart) tok of
        Inl e \<Rightarrow> Inl e
      | Inr step \<Rightarrow>
          (case parseRange rangePart tok mn mx of
             Inl e \<Rightarrow> Inl e
           | Inr r \<Rightarrow>
               if fst (foldSeven i r) < mn \<or> fst (foldSeven i r) > mx \<or>
                  snd (foldSeven i r) < mn \<or> snd (foldSeven i r) > mx
               then Inl (OutOfBounds tok mn mx)
               else Inr (values_loop (fst (foldSeven i r)) (snd (foldSeven i r)) step)))"
proof -
  have "trim tok = tok" using assms(1) by (intro trim_no_ws) simp
  moreover have "replaceNames tok i = tok" using assms(1) by (intro replaceNames_no_alpha) simp
  ultimately show ?thesis using assms(2)
    by (simp add: parseToken_def split: sum.splits prod.splits)
qed

lemma parseStep_digits: "0 < c \<Longrightarrow> parseStep (Some (digits c)) tok = Inr (int c)"
  by (simp add: parseStep_def digits_not_Nil parseInt_digits)

lemma parseRange_digits_range:
  "parseRange (digits a @ CHR ''-'' # digits b) tok mn mx = Inr (int a, int b)"
proof -
  let ?rp = "digits a @ CHR ''-'' # digits b"
  obtain d ds where d: "digits a = d # ds" using digits_not_Nil [of a] by (cases "digits a") auto
  have "?rp \<noteq> ''*''" using d by simp
  moreover have "CHR ''-'' \<in> set ?rp" by simp
  moreover have "CHR ''-'' \<notin> set (digits a)" "CHR ''-'' \<notin> set (digits b)"
    using digits_set isDigit_not_sign by blast+
  then have "split ?rp (CHR ''-'') = [digits a, digits b]"
    by (simp add: split_sep split_no_sep)
  ultimately show ?thesis by (simp add: parseRange_def parseInt_digits)
qed

lemma parseRange_digits:
  "parseRange (digits n) tok mn mx = Inr (int n, int n)"
proof -
  obtain d ds where d: "digits n = d # ds" using digits_not_Nil [of n] by (cases "digits n") auto
  have "d \<in> set (digits n)" using d by simp
  then have "d \<noteq> CHR ''*''" using digits_set isDigit_not_sep by blast
  then have "digits n \<noteq> ''*''" using d by simp
  moreover have "CHR ''-'' \<notin> set (digits n)"
    using digits_set isDigit_not_sign by blast
  ultimately show ?thesis by (simp add: parseRange_def parseInt_digits)
qed

lemma dow_max: "i < length FIELD_DEFS \<Longrightarrow> i = 4 \<Longrightarrow> max_f (FIELD_DEFS ! i) = 6"
  by (simp add: FIELD_DEFS_def)

lemma range_step_token_plain:
  "\<forall>ch\<in>set (digits a @ ''-'' @ digits b @ ''/'' @ digits c). \<not> isWhiteSpace ch \<and> \<not> isAlpha ch"
  using digits_set isDigit_not_ws isDigit_not_alpha
  by (auto simp: isWhiteSpace_def isAlpha_def)

lemma range_step_token_split:
  "split (digits a @ ''-'' @ digits b @ ''/'' @ digits c) (CHR ''/'') =
     [digits a @ CHR ''-'' # digits b, digits c]"
proof -
  have n: "CHR ''/'' \<notin> set (digits n)" for n using digits_set isDigit_not_sep by blast
  then have "CHR ''/'' \<notin> set (digits a @ CHR ''-'' # digits b)" by simp
  then have "split ((digits a @ CHR ''-'' # digits b) @ CHR ''/'' # digits c) (CHR ''/'') =
      (digits a @ CHR ''-'' # digits b) # split (digits c) (CHR ''/'')"
    by (rule split_sep)
  then show ?thesis using n by (simp add: split_no_sep)
qed

lemma digits_token_plain:
  "\<forall>ch\<in>set (digits n). \<not> isWhiteSpace ch \<and> \<not> isAlpha ch"
  using digits_set isDigit_not_ws isDigit_not_alpha by blast

lemma digits_token_split: "split (digits n) (CHR ''/'') = [digits n]"
  using digits_set isDigit_not_sep by (intro split_no_sep) blast

subsection \<open>Strings that start with a number\<close>

lemma splitAcc_hd:
  "\<exists>ys. splitAcc sep acc s = (rev acc @ takeWhile (\<lambda>c. c \<noteq> sep) s) # ys"
proof (induction s arbitrary: acc)
  case Nil
  show ?case by simp
next
  case (Cons a s)
  show ?case using Cons.IH [of "a # acc"] by (cases "a = sep") auto
qed

lemma split_hd: "\<exists>ys. split s sep = takeWhile (\<lambda>c. c \<noteq> sep) s # ys"
  using splitAcc_hd [of sep "[]" s] by (simp add: split_def)

lemma split_two:
  assumes "sep \<in> set s"
  shows "\<exists>p q ys. split s sep = p # q # ys"
proof -
  let ?a = "takeWhile (\<lambda>c. c \<noteq> sep) s" and ?b = "dropWhile (\<lambda>c. c \<noteq> sep) s"
  from assms have "?b \<noteq> []" by simp
  moreover have "hd ?b = sep" using \<open>?b \<noteq> []\<close> hd_dropWhile [of "\<lambda>c. c \<noteq> sep" s] by auto
  ultimately obtain b' where b: "?b = sep # b'" by (cases ?b) auto
  have "s = ?a @ sep # b'" using b takeWhile_dropWhile_id [of "\<lambda>c. c \<noteq> sep" s] by simp
  moreover have "sep \<notin> set ?a" by (auto dest: set_takeWhileD)
  ultimately have "split s sep = ?a # split b' sep" using split_sep [of sep ?a b'] by simp
  with split_hd [of b' sep] show ?thesis by auto
qed

lemma parseInt_leading:
  assumes "ds \<noteq> []" "list_all isDigit ds" "takeWhile isDigit rest = []"
  shows "parseInt (ds @ rest) = Some (digitsVal ds)"
proof -
  have "rest = [] \<or> \<not> isDigit (hd rest)" using assms(3) by (cases rest) (auto split: if_splits)
  with assms(1,2) show ?thesis by (rule parseInt_digits_append)
qed

lemma parseInt_Some_decomp:
  assumes "parseInt s = Some v"
  shows "\<exists>ws sg zs junk. s = ws @ sg @ zs @ junk \<and> list_all isWhiteSpace ws \<and>
           (sg = [] \<or> sg = ''+'' \<or> sg = ''-'') \<and> zs \<noteq> [] \<and> list_all isDigit zs"
proof -
  let ?ws = "takeWhile isWhiteSpace s" and ?s1 = "dropWhile isWhiteSpace s"
  let ?sg = "case ?s1 of c # r \<Rightarrow> if c = CHR ''-'' \<or> c = CHR ''+'' then [c] else [] | [] \<Rightarrow> []"
  let ?s2 = "case ?s1 of c # r \<Rightarrow> if c = CHR ''-'' \<or> c = CHR ''+'' then r else ?s1 | [] \<Rightarrow> ?s1"
  let ?zs = "takeWhile isDigit ?s2" and ?junk = "dropWhile isDigit ?s2"
  have sp: "l = (case l of c # r \<Rightarrow> if c = CHR ''-'' \<or> c = CHR ''+'' then [c] else [] | [] \<Rightarrow> []) @
      (case l of c # r \<Rightarrow> if c = CHR ''-'' \<or> c = CHR ''+'' then r else l | [] \<Rightarrow> l)"
    for l :: string by (cases l) auto
  have sgc: "(case l of c # r \<Rightarrow> if c = CHR ''-'' \<or> c = CHR ''+'' then [c] else [] | [] \<Rightarrow> [])
      \<in> {[], ''+'', ''-''}" for l :: string by (cases l) auto
  have "?s1 = ?sg @ ?s2" by (rule sp)
  then have "s = ?ws @ ?sg @ ?zs @ ?junk"
    using takeWhile_dropWhile_id [of isWhiteSpace s] takeWhile_dropWhile_id [of isDigit ?s2]
    by metis
  moreover have "list_all isWhiteSpace ?ws" by (auto simp: list_all_iff dest: set_takeWhileD)
  moreover have "?sg = [] \<or> ?sg = ''+'' \<or> ?sg = ''-''" using sgc [of ?s1] by blast
  moreover have "?zs \<noteq> []" using assms by (auto simp: parseInt_def Let_def split: if_splits)
  moreover have "list_all isDigit ?zs" by (auto simp: list_all_iff dest: set_takeWhileD)
  ultimately show ?thesis by blast
qed

lemma parseInt_decomp_Some:
  assumes "list_all isWhiteSpace ws" "sg = [] \<or> sg = ''+'' \<or> sg = ''-''"
    "zs \<noteq> []" "list_all isDigit zs"
  shows "parseInt (ws @ sg @ zs @ junk) \<noteq> None"
proof -
  from assms obtain z zs' where zs: "zs = z # zs'" and z: "isDigit z" by (cases zs) auto
  obtain h t where ht: "sg @ zs @ junk = h # t" and h: "\<not> isWhiteSpace h"
    using assms(2) zs isDigit_not_ws [OF z] by (auto simp: isWhiteSpace_def)
  have "dropWhile isWhiteSpace ws = []" using assms(1) by (simp add: list_all_iff)
  then have s1: "dropWhile isWhiteSpace (ws @ sg @ zs @ junk) = sg @ zs @ junk"
    using assms(1) h unfolding ht by (simp add: list_all_iff dropWhile_append)
  have tw: "takeWhile isDigit (zs @ junk) \<noteq> []" using zs z by simp
  from assms(2) show ?thesis
  proof (elim disjE)
    assume "sg = []"
    with s1 zs isDigit_not_sign [OF z] tw show ?thesis
      by (simp add: parseInt_def Let_def)
  next
    assume "sg = ''+''"
    with s1 tw show ?thesis by (simp add: parseInt_def Let_def)
  next
    assume "sg = ''-''"
    with s1 tw show ?thesis by (simp add: parseInt_def Let_def)
  qed
qed

lemma parseInt_None_iff:
  "(parseInt s = None) =
   (\<nexists>ws sg zs junk. s = ws @ sg @ zs @ junk \<and> list_all isWhiteSpace ws \<and>
      (sg = [] \<or> sg = ''+'' \<or> sg = ''-'') \<and> zs \<noteq> [] \<and> list_all isDigit zs)"
proof
  assume n: "parseInt s = None"
  show "\<nexists>ws sg zs junk. s = ws @ sg @ zs @ junk \<and> list_all isWhiteSpace ws \<and>
      (sg = [] \<or> sg = ''+'' \<or> sg = ''-'') \<and> zs \<noteq> [] \<and> list_all isDigit zs"
  proof
    assume "\<exists>ws sg zs junk. s = ws @ sg @ zs @ junk \<and> list_all isWhiteSpace ws \<and>
      (sg = [] \<or> sg = ''+'' \<or> sg = ''-'') \<and> zs \<noteq> [] \<and> list_all isDigit zs"
    then obtain ws sg zs junk where "s = ws @ sg @ zs @ junk" "list_all isWhiteSpace ws"
      "sg = [] \<or> sg = ''+'' \<or> sg = ''-''" "zs \<noteq> []" "list_all isDigit zs" by blast
    with parseInt_decomp_Some [of ws sg zs junk] n show False by simp
  qed
next
  assume "\<nexists>ws sg zs junk. s = ws @ sg @ zs @ junk \<and> list_all isWhiteSpace ws \<and>
      (sg = [] \<or> sg = ''+'' \<or> sg = ''-'') \<and> zs \<noteq> [] \<and> list_all isDigit zs"
  with parseInt_Some_decomp [of s] show "parseInt s = None" by (cases "parseInt s") auto
qed

lemma digits_no_dash: "list_all isDigit ds \<Longrightarrow> CHR ''-'' \<notin> set ds"
  using isDigit_not_sign by (auto simp: list_all_iff)

lemma digits_not_star: "ds \<noteq> [] \<Longrightarrow> list_all isDigit ds \<Longrightarrow> ds @ rest \<noteq> ''*''"
  using isDigit_not_sep by (cases ds) auto

lemma parseStep_leading:
  assumes "ds \<noteq> []" "list_all isDigit ds" "takeWhile isDigit rest = []"
  shows "parseStep (Some (ds @ rest)) tok = parseStep (Some ds) tok"
  using parseInt_leading [OF assms] parseInt_leading [OF assms(1,2), of "[]"] assms(1)
  by (simp add: parseStep_def)

lemma parseRange_value_leading:
  assumes "ds \<noteq> []" "list_all isDigit ds" "takeWhile isDigit rest = []" "CHR ''-'' \<notin> set rest"
  shows "parseRange (ds @ rest) tok mn mx = Inr (digitsVal ds, digitsVal ds)"
  using parseInt_leading [OF assms(1-3)] digits_not_star [OF assms(1,2), of rest]
    digits_no_dash [OF assms(2)] assms(4)
  by (simp add: parseRange_def)

lemma parseRange_bounds_leading:
  assumes "ds \<noteq> []" "list_all isDigit ds" "takeWhile isDigit rest = []" "CHR ''-'' \<notin> set rest"
    and "es \<noteq> []" "list_all isDigit es" "takeWhile isDigit rest2 = []"
  shows "parseRange (ds @ rest @ ''-'' @ es @ rest2) tok mn mx = Inr (digitsVal ds, digitsVal es)"
proof -
  let ?rp = "ds @ rest @ ''-'' @ es @ rest2"
  let ?q = "takeWhile (\<lambda>c. c \<noteq> CHR ''-'') (es @ rest2)"
  have nd: "CHR ''-'' \<notin> set (ds @ rest)" using digits_no_dash [OF assms(2)] assms(4) by simp
  have "?rp = (ds @ rest) @ CHR ''-'' # (es @ rest2)" by simp
  then have "split ?rp (CHR ''-'') = (ds @ rest) # split (es @ rest2) (CHR ''-'')"
    using split_sep [OF nd, of "es @ rest2"] by simp
  then obtain ys where sp: "split ?rp (CHR ''-'') = (ds @ rest) # ?q # ys"
    using split_hd [of "es @ rest2" "CHR ''-''"] by auto
  have "?q = es @ takeWhile (\<lambda>c. c \<noteq> CHR ''-'') rest2"
    using digits_no_dash [OF assms(6)] by (simp add: takeWhile_append)
  moreover have "takeWhile isDigit (takeWhile (\<lambda>c. c \<noteq> CHR ''-'') rest2) = []"
    using assms(7) by (cases rest2) (auto split: if_splits)
  ultimately have q: "parseInt ?q = Some (digitsVal es)"
    using parseInt_leading [OF assms(5,6)] by simp
  have "?rp \<noteq> ''*''" using digits_not_star [OF assms(1,2)] by blast
  moreover have "CHR ''-'' \<in> set ?rp" by simp
  ultimately show ?thesis
    using sp q parseInt_leading [OF assms(1-3)] by (simp add: parseRange_def)
qed

lemma parseStep_error_iff:
  "(parseStep sp tok = Inl (InvalidStep tok)) =
   (\<exists>s. sp = Some s \<and> s \<noteq> [] \<and> (parseInt s = None \<or> (\<exists>v. parseInt s = Some v \<and> v \<le> 0)))"
  by (cases sp) (auto simp: parseStep_def split: option.splits)

lemma parseRange_value_error_iff:
  "(parseRange rp tok mn mx = Inl (InvalidValue rp tok)) =
   (rp \<noteq> ''*'' \<and> CHR ''-'' \<notin> set rp \<and> parseInt rp = None)"
  by (auto simp: parseRange_def split: option.splits list.splits)

lemma parseRange_range_error_iff:
  "(parseRange rp tok mn mx = Inl (InvalidRange tok)) =
   (rp \<noteq> ''*'' \<and> CHR ''-'' \<in> set rp \<and>
    (\<exists>p q ys. split rp (CHR ''-'') = p # q # ys \<and> (parseInt p = None \<or> parseInt q = None)))"
proof (cases "rp \<noteq> ''*'' \<and> CHR ''-'' \<in> set rp")
  case False
  then show ?thesis by (auto simp: parseRange_def split: option.splits)
next
  case True
  then obtain p q ys where sp: "split rp (CHR ''-'') = p # q # ys" using split_two by blast
  with True show ?thesis
    by (cases "parseInt p"; cases "parseInt q") (simp_all add: parseRange_def)
qed

subsection \<open>Names at the matches of the scan\<close>

lemma alpha_run_append:
  "takeWhile isAlpha (rev ys @ zs) =
     (if list_all isAlpha ys then rev ys @ takeWhile isAlpha zs else takeWhile isAlpha (rev ys))"
  by (auto simp: takeWhile_append list_all_iff)

lemma alpha_run_all: "list_all isAlpha ys \<Longrightarrow> takeWhile isAlpha (rev ys) = rev ys"
  by (simp add: list_all_iff)

lemma alpha_run_match:
  assumes "isAlpha a \<and> isAlpha b \<and> isAlpha c"
  shows "length (takeWhile isAlpha (rev (a # b # c # rest))) mod 3 =
         length (takeWhile isAlpha (rev rest)) mod 3"
proof -
  have r: "rev (a # b # c # rest) = rev rest @ [c, b, a]" by simp
  show ?thesis
  proof (cases "list_all isAlpha rest")
    case True
    then have "takeWhile isAlpha (rev rest @ [c, b, a]) = rev rest @ [c, b, a]"
      using assms by (simp add: alpha_run_append)
    then show ?thesis by (simp only: r alpha_run_all [OF True]) simp
  next
    case False
    then have "takeWhile isAlpha (rev rest @ [c, b, a]) = takeWhile isAlpha (rev rest)"
      by (simp only: alpha_run_append if_False)
    then show ?thesis by (simp only: r)
  qed
qed

lemma alpha_run_skip:
  assumes "\<not> (isAlpha a \<and> isAlpha b \<and> isAlpha c)"
  shows "takeWhile isAlpha (rev (a # b # c # rest)) = takeWhile isAlpha (rev (b # c # rest))"
proof -
  have r: "rev (a # b # c # rest) = rev (b # c # rest) @ [a]" by simp
  show ?thesis
  proof (cases "list_all isAlpha (b # c # rest)")
    case True
    then have "\<not> isAlpha a" using assms by simp
    then have "takeWhile isAlpha [a] = []" by simp
    then have "takeWhile isAlpha (rev (b # c # rest) @ [a]) = rev (b # c # rest)"
      using True by (simp only: alpha_run_append if_True append_Nil2)
    then show ?thesis by (simp only: r alpha_run_all [OF True])
  next
    case False
    then show ?thesis by (simp only: r alpha_run_append if_False)
  qed
qed

lemma replaceAll3_aligned:
  assumes "isAlpha x" "isAlpha y" "isAlpha z"
  shows "length (takeWhile isAlpha (rev pre)) mod 3 = 0 \<Longrightarrow>
     replaceAll3 T (pre @ x # y # z # post) =
       replaceAll3 T pre @
       (case map_of T (map toLowerCase [x, y, z]) of Some v \<Rightarrow> String v | None \<Rightarrow> [x, y, z]) @
       replaceAll3 T post"
proof (induction T pre rule: replaceAll3.induct)
  case (1 nameMap a b c rest)
  show ?case
  proof (cases "isAlpha a \<and> isAlpha b \<and> isAlpha c")
    case True
    have "length (takeWhile isAlpha (rev rest)) mod 3 = 0"
      using "1.prems" by (simp only: alpha_run_match [OF True, of rest])
    with "1.IH"(1) True
    have IH: "replaceAll3 nameMap (rest @ x # y # z # post) =
        replaceAll3 nameMap rest @
        (case map_of nameMap (map toLowerCase [x, y, z]) of
           Some v \<Rightarrow> String v | None \<Rightarrow> [x, y, z]) @ replaceAll3 nameMap post"
      by blast
    have L: "replaceAll3 nameMap ((a # b # c # rest) @ x # y # z # post) =
        (case map_of nameMap (map toLowerCase [a, b, c]) of
           Some v \<Rightarrow> String v | None \<Rightarrow> [a, b, c]) @
        replaceAll3 nameMap (rest @ x # y # z # post)"
      using True by simp
    have R: "replaceAll3 nameMap (a # b # c # rest) =
        (case map_of nameMap (map toLowerCase [a, b, c]) of
           Some v \<Rightarrow> String v | None \<Rightarrow> [a, b, c]) @ replaceAll3 nameMap rest"
      using True by simp
    show ?thesis by (simp only: L R IH) simp
  next
    case False
    have "length (takeWhile isAlpha (rev (b # c # rest))) mod 3 = 0"
      using "1.prems" by (simp only: alpha_run_skip [OF False, of rest])
    with "1.IH"(2) False
    have IH: "replaceAll3 nameMap ((b # c # rest) @ x # y # z # post) =
        replaceAll3 nameMap (b # c # rest) @
        (case map_of nameMap (map toLowerCase [x, y, z]) of
           Some v \<Rightarrow> String v | None \<Rightarrow> [x, y, z]) @ replaceAll3 nameMap post"
      by blast
    have L: "replaceAll3 nameMap ((a # b # c # rest) @ x # y # z # post) =
        a # replaceAll3 nameMap ((b # c # rest) @ x # y # z # post)"
      using False by auto
    have R: "replaceAll3 nameMap (a # b # c # rest) = a # replaceAll3 nameMap (b # c # rest)"
      using False by auto
    show ?thesis by (simp only: L R IH) simp
  qed
qed (insert assms, auto split: if_splits)

section \<open>The claims\<close>

text \<open>
  C1. In the day-of-week field the token \<open>7\<close> expands as \<open>0\<close> does. The token \<open>0-7\<close>
  is claimed to expand to the whole week; the source rewrites the end of the range from 7
  to 0 before the loop, so the range is \<open>0-0\<close> and the result is Sunday alone; \<open>1-7\<close>
  becomes the reversed range \<open>1-0\<close>, which expands to nothing.
\<close>

theorem dow_seven_alias_and_range:
  "parseField ''7'' 4 = parseField ''0'' 4 \<and> parseField ''0-7'' 4 = Inr [0] \<and>
   parseField ''1-7'' 4 = Inr []"
  by code_simp

text \<open>
  C2. A token that ends in a slash has the empty string as its step part. The empty string
  is falsy, so the step is 1 and no error is raised: the minute field \<open>*/\<close> expands
  as \<open>*\<close> does.
\<close>

theorem empty_step_is_accepted:
  "parseField ''*/'' 0 = Inr [0..59]"
  by code_simp

text \<open>
  C3, as stated: a field text of white space only fails with the missing-field error.
  It does not: two spaces expand to the empty sequence.
\<close>

theorem whitespace_field_counterexample:
  "parseField ''  '' 0 = Inr []"
  by code_simp

text \<open>
  C3, amended: the empty field text fails with the missing-field error, for every field
  index; a non-empty text of white space only does not fail, it expands to the empty
  sequence.
\<close>

theorem empty_field_missing_whitespace_field_empty:
  "parseField [] i = Inl MissingField \<and>
   (s \<noteq> [] \<and> (\<forall>c\<in>set s. isWhiteSpace c) \<longrightarrow> parseField s i = Inr [])"
proof (intro conjI impI)
  show "parseField [] i = Inl MissingField" by (simp add: parseField_def)
next
  assume a: "s \<noteq> [] \<and> (\<forall>c\<in>set s. isWhiteSpace c)"
  then have "CHR '','' \<notin> set s" using comma_not_ws by blast
  then have "split s (CHR '','') = [s]" by (rule split_no_sep)
  moreover have "trim s = []" using a by (simp add: trim_all_ws)
  ultimately show "parseField s i = Inr []"
    using a by (simp add: parseField_def uniqueSorted_Nil)
qed

theorem empty_field_missing_whitespace_field_empty_witness:
  "parseField [] 0 = Inl MissingField \<and> ''  '' \<noteq> [] \<and>
   list_all isWhiteSpace ''  '' \<and> parseField ''  '' 0 = Inr []"
  using empty_field_missing_whitespace_field_empty [of 0 "''  ''"]
  by (simp add: isWhiteSpace_def)

text \<open>
  C4. For \<open>a\<close> and \<open>b\<close> in the domain of the field and a positive step \<open>c\<close>, the single
  token \<open>a-b/c\<close> (the numbers in decimal) expands to the members of
  \<open>{a, a+c, a+2c, ...}\<close> that lie in \<open>[a,b]\<close>, ascending; with \<open>a > b\<close> it expands to the
  empty sequence and no error is raised.
\<close>

theorem step_coverage:
  assumes i: "i < length FIELD_DEFS"
    and a: "min_f (FIELD_DEFS ! i) \<le> int a" "int a \<le> max_f (FIELD_DEFS ! i)"
    and b: "min_f (FIELD_DEFS ! i) \<le> int b" "int b \<le> max_f (FIELD_DEFS ! i)"
    and c: "0 < c"
  shows "\<exists>xs. parseField (digits a @ ''-'' @ digits b @ ''/'' @ digits c) i = Inr xs \<and>
           sorted_wrt (<) xs \<and>
           set xs = {x. \<exists>k::nat. x = int a + int k * int c} \<inter> {int a..int b} \<and>
           (b < a \<longrightarrow> xs = [])"
proof -
  let ?tok = "digits a @ ''-'' @ digits b @ ''/'' @ digits c"
  let ?mn = "min_f (FIELD_DEFS ! i)" and ?mx = "max_f (FIELD_DEFS ! i)"
  let ?xs = "values_loop (int a) (int b) (int c)"
  have fold: "foldSeven i (int a, int b) = (int a, int b)"
    using dow_max [OF i] a(2) b(2) by (auto simp: foldSeven_def)
  have "parseToken ?tok ?mn ?mx i = Inr ?xs"
    using parseToken_plain [OF range_step_token_plain range_step_token_split, of a b c ?mn ?mx i]
      a b c
    by (simp add: parseStep_digits parseRange_digits_range fold)
  moreover have "?tok \<noteq> []" by simp
  moreover have "\<forall>ch\<in>set ?tok. \<not> isWhiteSpace ch" using range_step_token_plain by blast
  moreover have "CHR '','' \<notin> set ?tok" using digits_set isDigit_not_sep by auto
  ultimately have "parseField ?tok i = Inr (uniqueSorted ?xs)"
    using i by (simp add: parseField_single)
  then have "parseField ?tok i = Inr ?xs"
    by (simp add: uniqueSorted_strict values_loop_strict)
  moreover have "set ?xs = {x. \<exists>k::nat. x = int a + int k * int c} \<inter> {int a..int b}"
    using c by (simp add: values_loop_set)
  moreover have "b < a \<longrightarrow> ?xs = []" by (simp add: values_loop_reversed)
  ultimately show ?thesis using values_loop_strict by blast
qed

theorem step_coverage_witness:
  "(0::nat) < length FIELD_DEFS \<and>
   min_f (FIELD_DEFS ! 0) \<le> int 3 \<and> int 3 \<le> max_f (FIELD_DEFS ! 0) \<and>
   min_f (FIELD_DEFS ! 0) \<le> int 10 \<and> int 10 \<le> max_f (FIELD_DEFS ! 0) \<and> (0::nat) < 2 \<and>
   parseField ''3-10/2'' 0 = Inr [3, 5, 7, 9] \<and>
   set [3, 5, 7, 9] = {x. \<exists>k::nat. x = int 3 + int k * int 2} \<inter> {int 3..int 10} \<and>
   (3::nat) < 10 \<and> parseField ''10-3/2'' 0 = Inr []"
proof -
  have h0: "(0::nat) < length FIELD_DEFS" by (simp add: FIELD_DEFS_def)
  have h1: "min_f (FIELD_DEFS ! 0) \<le> int 3" "int 3 \<le> max_f (FIELD_DEFS ! 0)"
    by (simp_all add: FIELD_DEFS_def)
  have h2: "min_f (FIELD_DEFS ! 0) \<le> int 10" "int 10 \<le> max_f (FIELD_DEFS ! 0)"
    by (simp_all add: FIELD_DEFS_def)
  have h3: "(0::nat) < 2" by simp
  have t1: "digits 3 @ ''-'' @ digits 10 @ ''/'' @ digits 2 = ''3-10/2''" by code_simp
  have t2: "digits 10 @ ''-'' @ digits 3 @ ''/'' @ digits 2 = ''10-3/2''" by code_simp
  have e1: "parseField ''3-10/2'' 0 = Inr [3, 5, 7, 9]" by code_simp
  from step_coverage [OF h0 h1 h2 h3] t1 e1
  have s1: "set [3, 5, 7, 9] = {x. \<exists>k::nat. x = int 3 + int k * int 2} \<inter> {int 3..int 10}"
    by auto
  from step_coverage [OF h0 h2 h1 h3] t2
  have e2: "parseField ''10-3/2'' 0 = Inr []" by auto
  from h0 h1 h2 h3 e1 s1 e2 show ?thesis by simp
qed

text \<open>
  C5. For each of the five field definitions, the field text \<open>*\<close> expands to all the
  integers from the minimum to the maximum of the field, ascending.
\<close>

theorem wildcard_is_whole_domain:
  "i < length FIELD_DEFS \<Longrightarrow>
   parseField ''*'' i = Inr [min_f (FIELD_DEFS ! i) .. max_f (FIELD_DEFS ! i)]"
proof -
  assume "i < length FIELD_DEFS"
  then have "i < 5" by (simp add: FIELD_DEFS_def)
  then consider "i = 0" | "i = 1" | "i = 2" | "i = 3" | "i = 4" by linarith
  then show ?thesis
  proof cases
    case 1 show ?thesis unfolding 1 by code_simp
  next
    case 2 show ?thesis unfolding 2 by code_simp
  next
    case 3 show ?thesis unfolding 3 by code_simp
  next
    case 4 show ?thesis unfolding 4 by code_simp
  next
    case 5 show ?thesis unfolding 5 by code_simp
  qed
qed

theorem wildcard_is_whole_domain_witness:
  "(2::nat) < length FIELD_DEFS \<and> parseField ''*'' 2 = Inr [1..31]"
proof -
  have h: "(2::nat) < length FIELD_DEFS" by (simp add: FIELD_DEFS_def)
  show ?thesis using h wildcard_is_whole_domain [OF h] by (simp add: FIELD_DEFS_def)
qed

text \<open>
  C6. Two field texts whose comma-separated tokens are the same up to order and
  repetition (the same set of tokens) expand to the same sequence, whenever both expand.
\<close>

theorem token_order_and_repetition_irrelevant:
  "set (split f1 (CHR '','')) = set (split f2 (CHR '','')) \<Longrightarrow>
   parseField f1 i = Inr r1 \<Longrightarrow> parseField f2 i = Inr r2 \<Longrightarrow> r1 = r2"
proof -
  let ?mn = "min_f (FIELD_DEFS ! i)" and ?mx = "max_f (FIELD_DEFS ! i)"
  assume eq: "set (split f1 (CHR '','')) = set (split f2 (CHR '',''))"
    and ok1: "parseField f1 i = Inr r1" and ok2: "parseField f2 i = Inr r2"
  have P: "set (parts_of f1) = set (parts_of f2)"
    unfolding set_parts_of eq ..
  show ?thesis
  proof (cases "parts_of f1 = []")
    case True
    with P have "parts_of f2 = []" by simp
    with True parseField_Inr_cases [OF ok1] parseField_Inr_cases [OF ok2] show ?thesis by simp
  next
    case False
    with P have F2: "parts_of f2 \<noteq> []" by auto
    from False parseField_Inr_cases [OF ok1]
    obtain v1 where v1: "parseTokens (parts_of f1) ?mn ?mx i [] = Inr v1"
      and r1: "r1 = uniqueSorted v1" by blast
    from F2 parseField_Inr_cases [OF ok2]
    obtain v2 where v2: "parseTokens (parts_of f2) ?mn ?mx i [] = Inr v2"
      and r2: "r2 = uniqueSorted v2" by blast
    have "set v1 = set v2"
      unfolding set_parseTokens [OF v1] set_parseTokens [OF v2] P ..
    then show ?thesis unfolding r1 r2 by (rule uniqueSorted_set_eq)
  qed
qed

theorem token_order_and_repetition_irrelevant_witness:
  "set (split ''1-3,9,*/20'' (CHR '','')) = set (split ''*/20,9,1-3,9'' (CHR '','')) \<and>
   parseField ''1-3,9,*/20'' 0 = Inr [0, 1, 2, 3, 9, 20, 40] \<and>
   parseField ''*/20,9,1-3,9'' 0 = Inr [0, 1, 2, 3, 9, 20, 40]"
proof -
  have h1: "set (split ''1-3,9,*/20'' (CHR '','')) = set (split ''*/20,9,1-3,9'' (CHR '',''))"
    by (simp add: split_def insert_commute)
  have h2: "parseField ''1-3,9,*/20'' 0 = Inr [0, 1, 2, 3, 9, 20, 40]" by code_simp
  have h3: "parseField ''*/20,9,1-3,9'' 0 = Inr [0, 1, 2, 3, 9, 20, 40]" by code_simp
  from token_order_and_repetition_irrelevant [OF h1 h2 h3] h1 h2 h3 show ?thesis by simp
qed

text \<open>
  C7. A sequence returned by the expansion of a field is strictly ascending, so free of
  duplicates, and each of its members lies between the minimum and the maximum of the field.
\<close>

theorem expanded_field_strictly_ascending_in_domain:
  "i < length FIELD_DEFS \<Longrightarrow> parseField f i = Inr xs \<Longrightarrow>
   sorted_wrt (<) xs \<and> distinct xs \<and>
   (\<forall>x\<in>set xs. min_f (FIELD_DEFS ! i) \<le> x \<and> x \<le> max_f (FIELD_DEFS ! i))"
proof -
  assume i: "i < length FIELD_DEFS" and ok: "parseField f i = Inr xs"
  let ?mn = "min_f (FIELD_DEFS ! i)" and ?mx = "max_f (FIELD_DEFS ! i)"
  show ?thesis
  proof (cases "parts_of f = []")
    case True
    with parseField_Inr_cases [OF ok] have "xs = []" by simp
    then show ?thesis by simp
  next
    case False
    with parseField_Inr_cases [OF ok]
    obtain vs where vs: "parseTokens (parts_of f) ?mn ?mx i [] = Inr vs"
      and xs: "xs = uniqueSorted vs" by blast
    have "\<forall>x\<in>set vs. ?mn \<le> x \<and> x \<le> ?mx"
    proof
      fix x assume "x \<in> set vs"
      with parseTokens_Inr [OF vs] obtain p ws where "parseToken p ?mn ?mx i = Inr ws" "x \<in> set ws"
        by auto
      then show "?mn \<le> x \<and> x \<le> ?mx" by (rule parseToken_bounds)
    qed
    then show ?thesis
      using xs strict_uniqueSorted [of vs] distinct_uniqueSorted [of vs]
      by (simp add: set_uniqueSorted)
  qed
qed

theorem expanded_field_strictly_ascending_in_domain_witness:
  "(4::nat) < length FIELD_DEFS \<and> parseField ''5,7,1-3,2'' 4 = Inr [0, 1, 2, 3, 5] \<and>
   sorted_wrt (<) [0, 1, 2, 3, 5 :: int] \<and> distinct [0, 1, 2, 3, 5 :: int] \<and>
   list_all (\<lambda>x. 0 \<le> x \<and> x \<le> 6) [0, 1, 2, 3, 5 :: int]"
proof -
  have h1: "(4::nat) < length FIELD_DEFS" by (simp add: FIELD_DEFS_def)
  have h2: "parseField ''5,7,1-3,2'' 4 = Inr [0, 1, 2, 3, 5]" by code_simp
  from expanded_field_strictly_ascending_in_domain [OF h1 h2] h1 h2 show ?thesis
    by (simp add: FIELD_DEFS_def)
qed

text \<open>
  C8, as stated: every three-letter substring that matches the name table, in any case, is
  replaced. It is not: the scan takes the letters three at a time from the left, so in
  \<open>xjan\<close> it reads \<open>xja\<close>, which is no name, and leaves \<open>n\<close>; \<open>jan\<close> stays.
\<close>

theorem misaligned_name_counterexample:
  "replaceNames ''xjan'' 3 = ''xjan''"
  by code_simp

text \<open>
  C8, amended: names are resolved in the month field and the day-of-week field only. There
  the token is scanned from the left for three letters in a row, match after match without
  overlap, and a match that is a name of the table, in any case, is replaced by its number:
  so a name is replaced when the letters directly before it number a multiple of three
  (none, notably). The replacement is made before the numbers are parsed: two tokens with
  the same text after it expand alike. \<open>jan\<close> in the month field expands as \<open>1\<close> does,
  and \<open>mon-fri\<close> in the day-of-week field as \<open>1-5\<close> does.
\<close>

theorem name_resolution_by_blocks:
  "(i \<noteq> 3 \<and> i \<noteq> 4 \<longrightarrow> replaceNames t i = t) \<and>
   (isAlpha x \<and> isAlpha y \<and> isAlpha z \<and> length (takeWhile isAlpha (rev pre)) mod 3 = 0 \<and>
    map_of MONTH_NAMES (map toLowerCase [x, y, z]) = Some v
    \<longrightarrow> replaceNames (pre @ [x, y, z] @ post) 3 =
          replaceNames pre 3 @ String v @ replaceNames post 3) \<and>
   (isAlpha x \<and> isAlpha y \<and> isAlpha z \<and> length (takeWhile isAlpha (rev pre)) mod 3 = 0 \<and>
    map_of DOW_NAMES (map toLowerCase [x, y, z]) = Some w
    \<longrightarrow> replaceNames (pre @ [x, y, z] @ post) 4 =
          replaceNames pre 4 @ String w @ replaceNames post 4) \<and>
   (replaceNames (trim t1) i = replaceNames (trim t2) i
    \<longrightarrow> parseToken t1 mn mx i = parseToken t2 mn mx i) \<and>
   parseField ''jan'' 3 = parseField ''1'' 3 \<and> parseField ''1'' 3 = Inr [1] \<and>
   parseField ''mon-fri'' 4 = parseField ''1-5'' 4 \<and>
   parseField ''1-5'' 4 = Inr [1, 2, 3, 4, 5]"
proof (intro conjI impI)
  assume "i \<noteq> 3 \<and> i \<noteq> 4"
  then show "replaceNames t i = t" by (simp add: replaceNames_def)
next
  assume h: "isAlpha x \<and> isAlpha y \<and> isAlpha z \<and>
    length (takeWhile isAlpha (rev pre)) mod 3 = 0 \<and>
    map_of MONTH_NAMES (map toLowerCase [x, y, z]) = Some v"
  then have "replaceAll3 MONTH_NAMES (pre @ x # y # z # post) =
      replaceAll3 MONTH_NAMES pre @
      (case map_of MONTH_NAMES (map toLowerCase [x, y, z]) of
         Some v \<Rightarrow> String v | None \<Rightarrow> [x, y, z]) @ replaceAll3 MONTH_NAMES post"
    by (intro replaceAll3_aligned) simp_all
  with h show "replaceNames (pre @ [x, y, z] @ post) 3 =
      replaceNames pre 3 @ String v @ replaceNames post 3"
    by (simp add: replaceNames_def)
next
  assume h: "isAlpha x \<and> isAlpha y \<and> isAlpha z \<and>
    length (takeWhile isAlpha (rev pre)) mod 3 = 0 \<and>
    map_of DOW_NAMES (map toLowerCase [x, y, z]) = Some w"
  then have "replaceAll3 DOW_NAMES (pre @ x # y # z # post) =
      replaceAll3 DOW_NAMES pre @
      (case map_of DOW_NAMES (map toLowerCase [x, y, z]) of
         Some v \<Rightarrow> String v | None \<Rightarrow> [x, y, z]) @ replaceAll3 DOW_NAMES post"
    by (intro replaceAll3_aligned) simp_all
  with h show "replaceNames (pre @ [x, y, z] @ post) 4 =
      replaceNames pre 4 @ String w @ replaceNames post 4"
    by (simp add: replaceNames_def)
next
  assume "replaceNames (trim t1) i = replaceNames (trim t2) i"
  then show "parseToken t1 mn mx i = parseToken t2 mn mx i"
    by (simp add: parseToken_def)
next
  show "parseField ''jan'' 3 = parseField ''1'' 3" by code_simp
next
  show "parseField ''1'' 3 = Inr [1]" by code_simp
next
  show "parseField ''mon-fri'' 4 = parseField ''1-5'' 4" by code_simp
next
  show "parseField ''1-5'' 4 = Inr [1, 2, 3, 4, 5]" by code_simp
qed

theorem name_resolution_by_blocks_witness:
  "(0::nat) \<noteq> 3 \<and> (0::nat) \<noteq> 4 \<and> replaceNames ''jan'' 0 = ''jan'' \<and>
   isAlpha CHR ''M'' \<and> isAlpha CHR ''a'' \<and> isAlpha CHR ''R'' \<and>
   length (takeWhile isAlpha (rev ''1-'')) mod 3 = 0 \<and>
   map_of MONTH_NAMES (map toLowerCase ''MaR'') = Some 3 \<and>
   replaceNames ''1-MaR/2'' 3 = ''1-3/2'' \<and>
   isAlpha CHR ''S'' \<and> isAlpha CHR ''u'' \<and> isAlpha CHR ''n'' \<and>
   length (takeWhile isAlpha (rev ''abc'')) mod 3 = 0 \<and>
   map_of DOW_NAMES (map toLowerCase ''Sun'') = Some 0 \<and>
   replaceNames ''abcSun'' 4 = ''abc0'' \<and>
   replaceNames (trim '' DEC'') 3 = replaceNames (trim ''12'') 3 \<and>
   parseToken '' DEC'' 1 12 3 = parseToken ''12'' 1 12 3"
proof -
  have a1: "(0::nat) \<noteq> 3 \<and> (0::nat) \<noteq> 4" by simp
  have b1: "isAlpha CHR ''M'' \<and> isAlpha CHR ''a'' \<and> isAlpha CHR ''R'' \<and>
      length (takeWhile isAlpha (rev ''1-'')) mod 3 = 0 \<and>
      map_of MONTH_NAMES (map toLowerCase ''MaR'') = Some 3" by code_simp
  have b2: "replaceNames ''1-'' 3 = ''1-''" "String 3 = ''3''" "replaceNames ''/2'' 3 = ''/2''"
    by code_simp+
  have c1: "isAlpha CHR ''S'' \<and> isAlpha CHR ''u'' \<and> isAlpha CHR ''n'' \<and>
      length (takeWhile isAlpha (rev ''abc'')) mod 3 = 0 \<and>
      map_of DOW_NAMES (map toLowerCase ''Sun'') = Some 0" by code_simp
  have c2: "replaceNames ''abc'' 4 = ''abc''" "String 0 = ''0''" "replaceNames [] 4 = []"
    by code_simp+
  have d1: "replaceNames (trim '' DEC'') 3 = replaceNames (trim ''12'') 3" by code_simp
  note inst = name_resolution_by_blocks [of 0 "''jan''" "CHR ''M''" "CHR ''a''" "CHR ''R''"
      "''1-''" 3 "''/2''" 0 "'' DEC''" "''12''" 1 12]
  note inst2 = name_resolution_by_blocks [of 3 "'' DEC''" "CHR ''S''" "CHR ''u''" "CHR ''n''"
      "''abc''" 3 "[]" 0 "'' DEC''" "''12''" 1 12]
  have r1: "replaceNames ''jan'' 0 = ''jan''" using inst a1 by blast
  have r2: "replaceNames ''1-MaR/2'' 3 = ''1-3/2''" using inst b1 b2 by simp
  have r3: "replaceNames ''abcSun'' 4 = ''abc0''" using inst2 c1 c2 by simp
  have r4: "parseToken '' DEC'' 1 12 3 = parseToken ''12'' 1 12 3" using inst2 d1 by blast
  from a1 b1 c1 d1 r1 r2 r3 r4 show ?thesis by blast
qed

text \<open>
  C9. A token whose range start or range end, after the fold of 7 to 0 in the day-of-week
  field, lies outside the domain of the field fails with the out-of-bounds error, which
  names the token and the domain. So does the decimal numeral of every number outside the
  domain of its field (7 apart, in the day-of-week field), and so does \<open>60\<close> in the
  minute field.
\<close>

theorem out_of_bounds_rejected:
  "(split (replaceNames (trim t) i) (CHR ''/'') = rangePart # rest \<and>
    parseStep (case rest of [] \<Rightarrow> None | stepPart # _ \<Rightarrow> Some stepPart)
      (replaceNames (trim t) i) = Inr step \<and>
    parseRange rangePart (replaceNames (trim t) i) mn mx = Inr r \<and>
    foldSeven i r = (rangeStart, rangeEnd) \<and>
    (rangeStart < mn \<or> rangeStart > mx \<or> rangeEnd < mn \<or> rangeEnd > mx)
    \<longrightarrow> parseToken t mn mx i = Inl (OutOfBounds (replaceNames (trim t) i) mn mx)) \<and>
   (j < length FIELD_DEFS \<and> \<not> (j = 4 \<and> n = 7) \<and>
    (int n < min_f (FIELD_DEFS ! j) \<or> max_f (FIELD_DEFS ! j) < int n)
    \<longrightarrow> parseField (digits n) j =
          Inl (OutOfBounds (digits n) (min_f (FIELD_DEFS ! j)) (max_f (FIELD_DEFS ! j)))) \<and>
   parseField ''60'' 0 = Inl (OutOfBounds ''60'' 0 59)"
proof (intro conjI impI)
  assume "split (replaceNames (trim t) i) (CHR ''/'') = rangePart # rest \<and>
    parseStep (case rest of [] \<Rightarrow> None | stepPart # _ \<Rightarrow> Some stepPart)
      (replaceNames (trim t) i) = Inr step \<and>
    parseRange rangePart (replaceNames (trim t) i) mn mx = Inr r \<and>
    foldSeven i r = (rangeStart, rangeEnd) \<and>
    (rangeStart < mn \<or> rangeStart > mx \<or> rangeEnd < mn \<or> rangeEnd > mx)"
  then show "parseToken t mn mx i = Inl (OutOfBounds (replaceNames (trim t) i) mn mx)"
    by (simp add: parseToken_def)
next
  let ?mn = "min_f (FIELD_DEFS ! j)" and ?mx = "max_f (FIELD_DEFS ! j)"
  assume h: "j < length FIELD_DEFS \<and> \<not> (j = 4 \<and> n = 7) \<and> (int n < ?mn \<or> ?mx < int n)"
  then have fold: "foldSeven j (int n, int n) = (int n, int n)"
    by (auto simp: foldSeven_def)
  have "parseToken (digits n) ?mn ?mx j = Inl (OutOfBounds (digits n) ?mn ?mx)"
    using parseToken_plain [OF digits_token_plain digits_token_split, of n ?mn ?mx j] h
    by (auto simp: parseStep_def parseRange_digits fold)
  moreover have "digits n \<noteq> []" by (rule digits_not_Nil)
  moreover have "\<forall>ch\<in>set (digits n). \<not> isWhiteSpace ch" using digits_token_plain by blast
  moreover have "CHR '','' \<notin> set (digits n)" using digits_set isDigit_not_sep by blast
  ultimately show "parseField (digits n) j = Inl (OutOfBounds (digits n) ?mn ?mx)"
    using h by (simp add: parseField_single)
next
  show "parseField ''60'' 0 = Inl (OutOfBounds ''60'' 0 59)" by code_simp
qed

theorem out_of_bounds_rejected_witness:
  "split (replaceNames (trim '' 8-9 '') 4) (CHR ''/'') = [''8-9''] \<and>
   parseStep None (replaceNames (trim '' 8-9 '') 4) = Inr 1 \<and>
   parseRange ''8-9'' (replaceNames (trim '' 8-9 '') 4) 0 6 = Inr (8, 9) \<and>
   foldSeven 4 (8, 9) = (8, 9) \<and> ((8::int) < 0 \<or> (8::int) > 6 \<or> (9::int) < 0 \<or> (9::int) > 6) \<and>
   parseToken '' 8-9 '' 0 6 4 = Inl (OutOfBounds ''8-9'' 0 6) \<and>
   (1::nat) < length FIELD_DEFS \<and> \<not> ((1::nat) = 4 \<and> (24::nat) = 7) \<and>
   (int 24 < min_f (FIELD_DEFS ! 1) \<or> max_f (FIELD_DEFS ! 1) < int 24) \<and>
   parseField ''24'' 1 = Inl (OutOfBounds ''24'' 0 23)"
proof -
  have tk: "replaceNames (trim '' 8-9 '') 4 = ''8-9''" by code_simp
  have h1: "split (replaceNames (trim '' 8-9 '') 4) (CHR ''/'') = [''8-9'']" by code_simp
  have h2: "parseStep None (replaceNames (trim '' 8-9 '') 4) = Inr 1" by code_simp
  have h3: "parseRange ''8-9'' (replaceNames (trim '' 8-9 '') 4) 0 6 = Inr (8, 9)" by code_simp
  have h4: "foldSeven 4 (8, 9) = (8, 9)" by code_simp
  have h5: "(8::int) < 0 \<or> (8::int) > 6 \<or> (9::int) < 0 \<or> (9::int) > 6" by simp
  have g1: "(1::nat) < length FIELD_DEFS" by (simp add: FIELD_DEFS_def)
  have g2: "\<not> ((1::nat) = 4 \<and> (24::nat) = 7)" by simp
  have g3: "int 24 < min_f (FIELD_DEFS ! 1) \<or> max_f (FIELD_DEFS ! 1) < int 24"
    by (simp add: FIELD_DEFS_def)
  have d: "digits 24 = ''24''" by code_simp
  have m: "min_f (FIELD_DEFS ! 1) = 0" "max_f (FIELD_DEFS ! 1) = 23" by (simp_all add: FIELD_DEFS_def)
  note inst = out_of_bounds_rejected [of "'' 8-9 ''" 4 "''8-9''" "[]" 1 0 6 "(8, 9)" 8 9 1 24]
  from inst h1 h2 h3 h4 h5 tk
  have c1: "parseToken '' 8-9 '' 0 6 4 = Inl (OutOfBounds ''8-9'' 0 6)" by simp
  from inst g1 g2 g3 d m
  have c2: "parseField ''24'' 1 = Inl (OutOfBounds ''24'' 0 23)" by simp
  from h1 h2 h3 h4 h5 c1 g1 g2 g3 c2 show ?thesis by blast
qed

text \<open>
  C10. \<open>parseInt\<close> reads the leading decimal digits of a string and ignores what follows
  them, in a step part, in a single value and in both bounds of a range. It yields no
  number exactly when the string, after leading white space and one optional sign, does
  not start with a digit, and these are the only strings on which the three numeric checks
  raise for want of a number. The tokens \<open>5x\<close> and \<open>*/3q\<close> of the minute field expand
  as \<open>5\<close> and \<open>*/3\<close> do.
\<close>

theorem numeric_parsing_uses_leading_digits:
  assumes ds: "ds \<noteq> []" "list_all isDigit ds"
    and rest: "takeWhile isDigit rest = []" "CHR ''-'' \<notin> set rest"
    and es: "es \<noteq> []" "list_all isDigit es"
    and rest2: "takeWhile isDigit rest2 = []"
  shows "parseInt (ds @ rest) = Some (digitsVal ds) \<and>
    parseInt ds = Some (digitsVal ds) \<and>
    parseStep (Some (ds @ rest)) tok = parseStep (Some ds) tok \<and>
    parseRange (ds @ rest) tok mn mx = parseRange ds tok mn mx \<and>
    parseRange (ds @ rest @ ''-'' @ es @ rest2) tok mn mx = parseRange (ds @ ''-'' @ es) tok mn mx \<and>
    parseRange (ds @ ''-'' @ es) tok mn mx = Inr (digitsVal ds, digitsVal es) \<and>
    (parseInt s = None) =
      (\<nexists>ws sg zs junk. s = ws @ sg @ zs @ junk \<and> list_all isWhiteSpace ws \<and>
         (sg = [] \<or> sg = ''+'' \<or> sg = ''-'') \<and> zs \<noteq> [] \<and> list_all isDigit zs) \<and>
    (parseStep sp tok = Inl (InvalidStep tok)) =
      (\<exists>s. sp = Some s \<and> s \<noteq> [] \<and> (parseInt s = None \<or> (\<exists>v. parseInt s = Some v \<and> v \<le> 0))) \<and>
    (parseRange rp tok mn mx = Inl (InvalidValue rp tok)) =
      (rp \<noteq> ''*'' \<and> CHR ''-'' \<notin> set rp \<and> parseInt rp = None) \<and>
    (parseRange rp tok mn mx = Inl (InvalidRange tok)) =
      (rp \<noteq> ''*'' \<and> CHR ''-'' \<in> set rp \<and>
       (\<exists>p q ys. split rp (CHR ''-'') = p # q # ys \<and> (parseInt p = None \<or> parseInt q = None))) \<and>
    parseField ''5x'' 0 = parseField ''5'' 0 \<and> parseField ''5'' 0 = Inr [5] \<and>
    parseField ''*/3q'' 0 = parseField ''*/3'' 0 \<and>
    parseField ''*/3'' 0 = Inr [0, 3, 6, 9, 12, 15, 18, 21, 24, 27, 30, 33, 36, 39, 42, 45, 48, 51, 54, 57]"
proof -
  have nil: "takeWhile isDigit [] = []" "CHR ''-'' \<notin> set []" by simp_all
  have p1: "parseInt (ds @ rest) = Some (digitsVal ds)"
    using ds rest(1) by (rule parseInt_leading)
  have p2: "parseInt ds = Some (digitsVal ds)"
    using parseInt_leading [OF ds nil(1)] by simp
  have p3: "parseStep (Some (ds @ rest)) tok = parseStep (Some ds) tok"
    using ds rest(1) by (rule parseStep_leading)
  have p4: "parseRange (ds @ rest) tok mn mx = parseRange ds tok mn mx"
    using parseRange_value_leading [OF ds rest] parseRange_value_leading [OF ds nil] by simp
  have p6: "parseRange (ds @ ''-'' @ es) tok mn mx = Inr (digitsVal ds, digitsVal es)"
    using parseRange_bounds_leading [OF ds nil es nil(1)] by simp
  have p5: "parseRange (ds @ rest @ ''-'' @ es @ rest2) tok mn mx =
      parseRange (ds @ ''-'' @ es) tok mn mx"
    unfolding p6 using ds rest es rest2 by (rule parseRange_bounds_leading)
  have e1: "parseField ''5x'' 0 = parseField ''5'' 0" by code_simp
  have e2: "parseField ''5'' 0 = Inr [5]" by code_simp
  have e3: "parseField ''*/3q'' 0 = parseField ''*/3'' 0" by code_simp
  have e4: "parseField ''*/3'' 0 =
      Inr [0, 3, 6, 9, 12, 15, 18, 21, 24, 27, 30, 33, 36, 39, 42, 45, 48, 51, 54, 57]"
    by code_simp
  show ?thesis
    by (intro conjI p1 p2 p3 p4 p5 p6 parseInt_None_iff parseStep_error_iff
        parseRange_value_error_iff parseRange_range_error_iff e1 e2 e3 e4)
qed

theorem numeric_parsing_uses_leading_digits_witness:
  "''5'' \<noteq> [] \<and> list_all isDigit ''5'' \<and> takeWhile isDigit ''x '' = [] \<and>
   CHR ''-'' \<notin> set ''x '' \<and> ''12'' \<noteq> [] \<and> list_all isDigit ''12'' \<and>
   takeWhile isDigit ''-y'' = [] \<and>
   parseInt ''5x '' = Some 5 \<and>
   parseStep (Some ''5x '') ''*/5x '' = Inr 5 \<and>
   parseRange ''5x '' ''5x '' 0 59 = Inr (5, 5) \<and>
   parseRange ''5x -12-y'' ''5x -12-y'' 0 59 = Inr (5, 12)"
proof -
  have h1: "''5'' \<noteq> []" "list_all isDigit ''5''" by (simp_all add: isDigit_def)
  have h2: "takeWhile isDigit ''x '' = []" "CHR ''-'' \<notin> set ''x ''" by (simp_all add: isDigit_def)
  have h3: "''12'' \<noteq> []" "list_all isDigit ''12''" by (simp_all add: isDigit_def)
  have h4: "takeWhile isDigit ''-y'' = []" by (simp add: isDigit_def)
  have v: "digitsVal ''5'' = 5" "digitsVal ''12'' = 12" by (simp_all add: digitsVal_def digitVal_def)
  have s: "parseStep (Some ''5'') ''*/5x '' = Inr 5" by code_simp
  have r: "parseRange ''5'' ''5x '' 0 59 = Inr (5, 5)" by code_simp
  note inst1 = numeric_parsing_uses_leading_digits [OF h1 h2 h3 h4, of "''*/5x ''" 0 59]
  note inst2 = numeric_parsing_uses_leading_digits [OF h1 h2 h3 h4, of "''5x ''" 0 59]
  note inst3 = numeric_parsing_uses_leading_digits [OF h1 h2 h3 h4, of "''5x -12-y''" 0 59]
  have c1: "parseInt ''5x '' = Some 5" using inst1 v by simp
  have c2: "parseStep (Some ''5x '') ''*/5x '' = Inr 5" using inst1 s by simp
  have c3: "parseRange ''5x '' ''5x '' 0 59 = Inr (5, 5)" using inst2 r by simp
  have c4: "parseRange ''5x -12-y'' ''5x -12-y'' 0 59 = Inr (5, 12)" using inst3 v by simp
  from h1 h2 h3 h4 c1 c2 c3 c4 show ?thesis by blast
qed

end
